theory Spec2Isabelle
  imports
    Main
    "HOL-Library.Word"
    "HOL-Library.Char_ord"
    "HOL-Library.List_Lexorder"
    "HOL-Library.AList"
    "HOL-Library.Multiset"
begin

chapter \<open>wordcounter: external-memory word counting (cmd/main.go)\<close>

text \<open>
  The program reads a text file one line at a time, counts the trimmed non-empty lines
  in a map of bounded size, spills the map to sorted temporary files, and merges those
  files in rounds with a binary heap until one file remains.

  Conventions of the embedding.
  \<^item> A Go \<open>string\<close> is a byte sequence: \<open>string\<close> (a \<open>char list\<close>). Go compares strings
    bytewise; that is the lexicographic order of \<open>List_Lexorder\<close> over \<open>Char_ord\<close>.
  \<^item> A Go \<open>int\<close> is 64 bits wide (the 64-bit platforms): counts are \<open>64 word\<close>, read as
    signed numbers by \<open>sint\<close>; \<open>+\<close> wraps as the machine does.
  \<^item> A file is the list of its lines. \<open>bufio.Scanner\<close> yields the lines of a file one by
    one, and every file the program reads back was written by \<open>Fprintf\<close> one line at a
    time. \<open>os.CreateTemp\<close> returns a fresh name each time, so a file handle is
    represented by the content of the file. I/O failures are left out: the store always
    succeeds.
  \<^item> A Go map is an association list with distinct keys. The source reads a map only by
    key lookup, by \<open>len\<close>, and by enumerating the keys into a slice that is sorted before
    use, so the position of a key in the list never reaches an output.
  \<^item> \<open>MAX_WORDS_IN_MEMORY\<close> is the parameter \<open>B :: nat\<close> of every function that reads the
    global variable; \<open>main\<close> rejects values \<open>\<le> 0\<close> before any of them runs.
  \<^item> A run-time panic is the value \<open>Inl IndexOutOfRange\<close>; a loop that may run forever is
    a \<^theory_text>\<open>partial_function\<close> in the option monad, where \<open>None\<close> means that
    the call does not return.
\<close>

section \<open>Library functions used by the source\<close>

subsection \<open>strings.TrimSpace\<close>

text \<open>
  \<open>strings.TrimSpace\<close> removes leading and trailing white space as Unicode defines it.
  On the bytes of a UTF-8 string these are the six ASCII characters
  \<open>\t \n \v \f \r\<close> and space, and the encodings of U+0085, U+00A0, U+1680,
  U+2000..U+200A, U+2028, U+2029, U+202F, U+205F and U+3000.
\<close>

definition space_runes :: "string list" where
  "space_runes =
    [[CHR 0x09], [CHR 0x0A], [CHR 0x0B], [CHR 0x0C], [CHR 0x0D], [CHR 0x20],
     [CHR 0xC2, CHR 0x85], [CHR 0xC2, CHR 0xA0], [CHR 0xE1, CHR 0x9A, CHR 0x80],
     [CHR 0xE2, CHR 0x80, CHR 0x80], [CHR 0xE2, CHR 0x80, CHR 0x81],
     [CHR 0xE2, CHR 0x80, CHR 0x82], [CHR 0xE2, CHR 0x80, CHR 0x83],
     [CHR 0xE2, CHR 0x80, CHR 0x84], [CHR 0xE2, CHR 0x80, CHR 0x85],
     [CHR 0xE2, CHR 0x80, CHR 0x86], [CHR 0xE2, CHR 0x80, CHR 0x87],
     [CHR 0xE2, CHR 0x80, CHR 0x88], [CHR 0xE2, CHR 0x80, CHR 0x89],
     [CHR 0xE2, CHR 0x80, CHR 0x8A], [CHR 0xE2, CHR 0x80, CHR 0xA8],
     [CHR 0xE2, CHR 0x80, CHR 0xA9], [CHR 0xE2, CHR 0x80, CHR 0xAF],
     [CHR 0xE2, CHR 0x81, CHR 0x9F], [CHR 0xE3, CHR 0x80, CHR 0x80]]"

definition space_prefix :: "string \<Rightarrow> nat" where
  "space_prefix s =
     (case List.find (\<lambda>p. take (length p) s = p) space_runes of
        None \<Rightarrow> 0 | Some p \<Rightarrow> length p)"

definition space_suffix :: "string \<Rightarrow> nat" where
  "space_suffix s =
     (case List.find (\<lambda>p. take (length p) (rev s) = rev p) space_runes of
        None \<Rightarrow> 0 | Some p \<Rightarrow> length p)"

function TrimLeft :: "string \<Rightarrow> string" where
  "TrimLeft s = (if space_prefix s = 0 then s else TrimLeft (drop (space_prefix s) s))"
  by pat_completeness auto
termination
proof (relation "measure length")
  show "wf (measure length)" by simp
next
  fix s :: string
  assume a: "space_prefix s \<noteq> 0"
  have "s \<noteq> []"
  proof
    assume "s = []"
    then have "space_prefix s = 0"
      by (simp add: space_prefix_def space_runes_def)
    with a show False by simp
  qed
  with a show "(drop (space_prefix s) s, s) \<in> measure length" by simp
qed

function TrimRight :: "string \<Rightarrow> string" where
  "TrimRight s =
     (if space_suffix s = 0 then s else TrimRight (take (length s - space_suffix s) s))"
  by pat_completeness auto
termination
proof (relation "measure length")
  show "wf (measure length)" by simp
next
  fix s :: string
  assume a: "space_suffix s \<noteq> 0"
  have "s \<noteq> []"
  proof
    assume "s = []"
    then have "space_suffix s = 0"
      by (simp add: space_suffix_def space_runes_def)
    with a show False by simp
  qed
  with a show "(take (length s - space_suffix s) s, s) \<in> measure length" by simp
qed

definition TrimSpace :: "string \<Rightarrow> string" where
  "TrimSpace s = TrimRight (TrimLeft s)"

subsection \<open>strings.SplitN with separator tab and limit 2\<close>

definition tab :: char where
  "tab = CHR 0x09"

text \<open>
  \<open>strings.SplitN(line, "\t", 2)\<close> returns the text before the first tab and the text
  after it, or the line alone when it has no tab.
\<close>

definition SplitN2 :: "string \<Rightarrow> string list" where
  "SplitN2 line =
     (if tab \<in> set line
      then [takeWhile (\<lambda>c. c \<noteq> tab) line, tl (dropWhile (\<lambda>c. c \<noteq> tab) line)]
      else [line])"

subsection \<open>strconv.Atoi and the verb percent-d\<close>

type_synonym go_int = "64 word"

definition is_digit :: "char \<Rightarrow> bool" where
  "is_digit c = (48 \<le> (of_char c :: nat) \<and> (of_char c :: nat) \<le> 57)"

definition digit_val :: "char \<Rightarrow> int" where
  "digit_val c = of_char c - 48"

definition digits_val :: "string \<Rightarrow> int" where
  "digits_val ds = foldl (\<lambda>n c. n * 10 + digit_val c) 0 ds"

text \<open>
  \<open>strconv.Atoi\<close>: an optional sign followed by one or more decimal digits. A value
  outside the range of \<open>int\<close> is replaced by the nearest bound and reported as an
  error; any other text yields 0 and an error. The second component is \<open>True\<close> when
  the error is \<open>nil\<close>.
\<close>

definition Atoi :: "string \<Rightarrow> go_int \<times> bool" where
  "Atoi s =
     (let neg = (s \<noteq> [] \<and> hd s = CHR ''-'');
          ds = (if s \<noteq> [] \<and> (hd s = CHR ''-'' \<or> hd s = CHR ''+'') then tl s else s)
      in if ds = [] \<or> \<not> list_all is_digit ds then (0, False)
         else let v = digits_val ds
              in if neg then (if v > 2 ^ 63 then (word_of_int (- (2 ^ 63)), False)
                              else (word_of_int (- v), True))
                 else (if v \<ge> 2 ^ 63 then (word_of_int (2 ^ 63 - 1), False)
                       else (word_of_int v, True)))"

definition digit_char :: "nat \<Rightarrow> char" where
  "digit_char d = ''0123456789'' ! d"

fun dec :: "nat \<Rightarrow> string" where
  "dec n = (if n < 10 then [digit_char n] else dec (n div 10) @ [digit_char (n mod 10)])"

declare dec.simps [simp del]

text \<open>The verb \<open>%d\<close> of \<open>fmt.Fprintf\<close> on an \<open>int\<close>: signed decimal.\<close>

definition fmt_d :: "go_int \<Rightarrow> string" where
  "fmt_d c = (if sint c < 0 then CHR ''-'' # dec (nat (- sint c)) else dec (nat (sint c)))"

section \<open>Record format\<close>

text \<open>\<open>fmt.Fprintf(writer, "%s\t%d\n", word, n)\<close> writes this line.\<close>

definition record_line :: "string \<Rightarrow> go_int \<Rightarrow> string" where
  "record_line w n = w @ [tab] @ fmt_d n"

text \<open>
  \<open>parseLine\<close> (lines 234-241). After the test \<open>len(parts) != 2\<close> both index reads are
  in range, so the function has no failing branch; the error of \<open>Atoi\<close> is dropped.
\<close>

definition parseLine :: "string \<Rightarrow> string \<times> go_int" where
  "parseLine line =
     (case SplitN2 line of
        [p0, p1] \<Rightarrow> (p0, fst (Atoi p1))
      | _ \<Rightarrow> ([], 0))"


section \<open>Maps from words to counts\<close>

type_synonym table = "(string \<times> go_int) list"

text \<open>\<open>m[k]\<close>: the value stored under \<open>k\<close>, or the zero value when \<open>k\<close> is absent.\<close>

definition lookup :: "table \<Rightarrow> string \<Rightarrow> go_int" where
  "lookup m k = (case map_of m k of None \<Rightarrow> 0 | Some v \<Rightarrow> v)"

text \<open>\<open>m[k] += n\<close>; \<open>m[k]++\<close> is \<open>add_count m k 1\<close>.\<close>

definition add_count :: "table \<Rightarrow> string \<Rightarrow> go_int \<Rightarrow> table" where
  "add_count m k n = AList.update k (lookup m k + n) m"

text \<open>
  The keys of the map, collected into a slice and sorted by \<open>sort.Strings\<close>, and one
  formatted line for each (lines 97-106 and 244-255).
\<close>

definition sorted_words :: "table \<Rightarrow> string list" where
  "sorted_words m = sort (map fst m)"

definition flushToTempFile :: "table \<Rightarrow> string list" where
  "flushToTempFile wordCount =
     map (\<lambda>w. record_line w (lookup wordCount w)) (sorted_words wordCount)"

definition flushBufferToWriter :: "table \<Rightarrow> string list" where
  "flushBufferToWriter buffer =
     map (\<lambda>w. record_line w (lookup buffer w)) (sorted_words buffer)"

section \<open>Input phase: processInputFile (lines 53-88)\<close>

text \<open>
  The loop over the scanned lines, with the map \<open>wordCount\<close> and the list \<open>tempFiles\<close>
  as its state.
\<close>

fun scanLoop :: "nat \<Rightarrow> string list \<Rightarrow> table \<Rightarrow> string list list \<Rightarrow> table \<times> string list list" where
  "scanLoop B [] wordCount tempFiles = (wordCount, tempFiles)"
| "scanLoop B (line # rest) wordCount tempFiles =
     (let word = TrimSpace line in
      if word = [] then scanLoop B rest wordCount tempFiles
      else let wordCount = add_count wordCount word 1 in
        if length wordCount \<ge> B
        then scanLoop B rest [] (tempFiles @ [flushToTempFile wordCount])
        else scanLoop B rest wordCount tempFiles)"

definition processInputFile :: "nat \<Rightarrow> string list \<Rightarrow> string list list" where
  "processInputFile B lines =
     (case scanLoop B lines [] [] of
        (wordCount, tempFiles) \<Rightarrow>
          if length wordCount > 0 then tempFiles @ [flushToTempFile wordCount]
          else tempFiles)"

text \<open>
  The same loop with a ghost history: every value the variable \<open>wordCount\<close> takes, in
  the order of the assignments (line 69 and line 76).
\<close>

fun scanLoop_hist :: "nat \<Rightarrow> string list \<Rightarrow> table \<Rightarrow> table list" where
  "scanLoop_hist B [] wordCount = []"
| "scanLoop_hist B (line # rest) wordCount =
     (let word = TrimSpace line in
      if word = [] then scanLoop_hist B rest wordCount
      else let wordCount = add_count wordCount word 1 in
        if length wordCount \<ge> B
        then wordCount # [] # scanLoop_hist B rest []
        else wordCount # scanLoop_hist B rest wordCount)"

section \<open>The heap of container/heap over fileEntryHeap (lines 210-232)\<close>

record fileEntry =
  word :: string
  count :: go_int
  fileIdx :: nat

type_synonym fileEntryHeap = "fileEntry list"

definition Less :: "fileEntryHeap \<Rightarrow> nat \<Rightarrow> nat \<Rightarrow> bool" where
  "Less h i j = (word (h ! i) < word (h ! j))"

definition Swap :: "fileEntryHeap \<Rightarrow> nat \<Rightarrow> nat \<Rightarrow> fileEntryHeap" where
  "Swap h i j = h[i := h ! j, j := h ! i]"

text \<open>
  \<open>up\<close> and \<open>down\<close> of container/heap. In \<open>up\<close> the parent of \<open>j\<close> is \<open>(j - 1) / 2\<close>,
  which Go rounds towards zero: the parent of 0 is 0, as with the truncated
  subtraction of \<open>nat\<close>.
\<close>

function up :: "fileEntryHeap \<Rightarrow> nat \<Rightarrow> fileEntryHeap" where
  "up h j =
     (let i = (j - 1) div 2 in
      if i = j \<or> \<not> Less h j i then h else up (Swap h i j) i)"
  by pat_completeness auto
termination
  by (relation "measure snd") auto

declare up.simps [simp del]

function down :: "fileEntryHeap \<Rightarrow> nat \<Rightarrow> nat \<Rightarrow> fileEntryHeap" where
  "down h i n =
     (let j1 = 2 * i + 1 in
      if j1 \<ge> n then h
      else let j = (if j1 + 1 < n \<and> Less h (j1 + 1) j1 then j1 + 1 else j1) in
        if \<not> Less h j i then h else down (Swap h i j) j n)"
  by pat_completeness auto
termination
  by (relation "measure (\<lambda>(h, i, n). n - i)") auto

declare down.simps [simp del]

text \<open>\<open>heap.Push\<close>: append, then \<open>up\<close> from the last index.\<close>

definition heap_Push :: "fileEntryHeap \<Rightarrow> fileEntry \<Rightarrow> fileEntryHeap" where
  "heap_Push h x = up (h @ [x]) (length (h @ [x]) - 1)"

text \<open>
  \<open>heap.Pop\<close>: swap the root with the last element, \<open>down\<close> from the root over the
  first \<open>n\<close> elements, then remove and return the last element. The source calls it
  only when \<open>h.Len() > 0\<close>.
\<close>

definition heap_Pop :: "fileEntryHeap \<Rightarrow> fileEntry \<times> fileEntryHeap" where
  "heap_Pop h =
     (let n = length h - 1;
          h1 = down (Swap h 0 n) 0 n
      in (last h1, butlast h1))"

text \<open>
  The heap order: no element is smaller than its parent. \<open>up_inv\<close> and \<open>down_inv\<close> are
  the loop invariants of \<open>up\<close> and \<open>down\<close>: the order holds everywhere except around
  one index.
\<close>

definition heap_upto :: "fileEntryHeap \<Rightarrow> nat \<Rightarrow> bool" where
  "heap_upto h n = (\<forall>k. 0 < k \<and> k < n \<longrightarrow> word (h ! ((k - 1) div 2)) \<le> word (h ! k))"

definition is_heap :: "fileEntryHeap \<Rightarrow> bool" where
  "is_heap h = heap_upto h (length h)"

definition up_inv :: "fileEntryHeap \<Rightarrow> nat \<Rightarrow> bool" where
  "up_inv h j =
     ((\<forall>k. 0 < k \<and> k < length h \<and> k \<noteq> j \<longrightarrow> word (h ! ((k - 1) div 2)) \<le> word (h ! k)) \<and>
      (\<forall>k. 0 < k \<and> k < length h \<and> (k - 1) div 2 = j \<and> 0 < j \<longrightarrow>
           word (h ! ((j - 1) div 2)) \<le> word (h ! k)))"


section \<open>Merge phase: mergeBatch (lines 139-206)\<close>

datatype error = IndexOutOfRange | InvalidArgument

definition new_entry :: "string \<times> go_int \<Rightarrow> nat \<Rightarrow> fileEntry" where
  "new_entry r i = \<lparr>word = fst r, count = snd r, fileIdx = i\<rparr>"

text \<open>
  The first loop (lines 153-166): one scanner per file, and the first record of every
  non-empty file pushed on the heap. \<open>readers ! i\<close> is what the scanner of file \<open>i\<close> has
  not yet returned.
\<close>

definition open_heap :: "string list list \<Rightarrow> fileEntryHeap" where
  "open_heap tempFiles =
     foldl (\<lambda>h (i, f). case f of [] \<Rightarrow> h
                          | line # _ \<Rightarrow> heap_Push h (new_entry (parseLine line) i))
       [] (enumerate 0 tempFiles)"

definition open_readers :: "string list list \<Rightarrow> string list list" where
  "open_readers tempFiles = map (drop 1) tempFiles"

text \<open>
  The state of the merge loop: the heap \<open>h\<close>, the scanners, the map \<open>wordBuffer\<close> and the
  lines written to the output file so far.
\<close>

record mergeState =
  m_heap :: fileEntryHeap
  m_readers :: "string list list"
  m_wordBuffer :: table
  m_writer :: "string list"

text \<open>
  One iteration of the merge loop (lines 181-196). The read \<open>readers[entry.fileIdx]\<close>
  panics when the index is out of range.
\<close>

definition mergeStep :: "nat \<Rightarrow> mergeState \<Rightarrow> error + mergeState" where
  "mergeStep B s =
     (case heap_Pop (m_heap s) of
        (entry, h1) \<Rightarrow>
          let full = (map_of (m_wordBuffer s) (word entry) = None \<and> length (m_wordBuffer s) \<ge> B);
              writer1 = (if full then m_writer s @ flushBufferToWriter (m_wordBuffer s)
                         else m_writer s);
              wordBuffer1 = (if full then [] else m_wordBuffer s);
              wordBuffer2 = add_count wordBuffer1 (word entry) (count entry)
          in if fileIdx entry < length (m_readers s) then
               (case m_readers s ! fileIdx entry of
                  [] \<Rightarrow>
                    Inr \<lparr>m_heap = h1, m_readers = m_readers s,
                         m_wordBuffer = wordBuffer2, m_writer = writer1\<rparr>
                | line # rest \<Rightarrow>
                    Inr \<lparr>m_heap = heap_Push h1 (new_entry (parseLine line) (fileIdx entry)),
                         m_readers = (m_readers s)[fileIdx entry := rest],
                         m_wordBuffer = wordBuffer2, m_writer = writer1\<rparr>)
             else Inl IndexOutOfRange)"

text \<open>The loop (line 180) and the final flush (lines 199-203).\<close>

function mergeLoop :: "nat \<Rightarrow> mergeState \<Rightarrow> error + string list" where
  "mergeLoop B s =
     (if length (m_heap s) > 0 then
        (case mergeStep B s of
           Inl e \<Rightarrow> Inl e
         | Inr s' \<Rightarrow> mergeLoop B s')
      else Inr (if length (m_wordBuffer s) > 0
                then m_writer s @ flushBufferToWriter (m_wordBuffer s)
                else m_writer s))"
  by pat_completeness auto

text \<open>
  The state when the merge loop starts: the heap and the scanners of the first loop, the
  empty map of line 178 and an empty output file.
\<close>

definition init_state :: "string list list \<Rightarrow> mergeState" where
  "init_state tempFiles =
     \<lparr>m_heap = open_heap tempFiles, m_readers = open_readers tempFiles,
      m_wordBuffer = [], m_writer = []\<rparr>"

definition mergeBatch :: "nat \<Rightarrow> string list list \<Rightarrow> error + string list" where
  "mergeBatch B tempFiles = mergeLoop B (init_state tempFiles)"

text \<open>
  The number of records the merge loop has not yet consumed: those on the heap and
  those the scanners have not returned. It decreases with every iteration.
\<close>

definition pending :: "mergeState \<Rightarrow> nat" where
  "pending s = length (m_heap s) + sum_list (map length (m_readers s))"

text \<open>
  The ghost history of \<open>wordBuffer\<close>: the values assigned to the variable in one
  iteration (line 187, when the map is flushed, and line 190), then in the whole loop,
  starting from the empty map of line 178.
\<close>

definition mergeStep_hist :: "nat \<Rightarrow> mergeState \<Rightarrow> table list" where
  "mergeStep_hist B s =
     (case heap_Pop (m_heap s) of
        (entry, h1) \<Rightarrow>
          let full = (map_of (m_wordBuffer s) (word entry) = None \<and> length (m_wordBuffer s) \<ge> B);
              wordBuffer1 = (if full then [] else m_wordBuffer s)
          in (if full then [[]] else []) @ [add_count wordBuffer1 (word entry) (count entry)])"

function mergeLoop_hist :: "nat \<Rightarrow> mergeState \<Rightarrow> table list" where
  "mergeLoop_hist B s =
     (if length (m_heap s) > 0 then
        mergeStep_hist B s @
        (case mergeStep B s of
           Inl e \<Rightarrow> []
         | Inr s' \<Rightarrow> mergeLoop_hist B s')
      else [])"
  by pat_completeness auto

definition mergeBatch_hist :: "nat \<Rightarrow> string list list \<Rightarrow> table list" where
  "mergeBatch_hist B tempFiles =
     m_wordBuffer (init_state tempFiles) # mergeLoop_hist B (init_state tempFiles)"

section \<open>Merge scheduler: mergeInBatches (lines 113-137) and main (lines 15-49)\<close>

text \<open>
  The inner loop (lines 117-132): \<open>i\<close> advances by \<open>MAX_WORDS_IN_MEMORY\<close>, and each batch
  \<open>files[i:end]\<close> is merged into one file. Neither loop has a bound on the number of its
  iterations, so both are partial functions.
\<close>

partial_function (option) mergeRound ::
  "nat \<Rightarrow> string list list \<Rightarrow> nat \<Rightarrow> string list list \<Rightarrow> (error + string list list) option" where
  "mergeRound B files i nextRoundFiles =
     (if i < length files then
        (let stop = (if i + B > length files then length files else i + B);
             batch = take (stop - i) (drop i files)
         in case mergeBatch B batch of
              Inl e \<Rightarrow> Some (Inl e)
            | Inr merged \<Rightarrow> mergeRound B files (i + B) (nextRoundFiles @ [merged]))
      else Some (Inr nextRoundFiles))"

text \<open>The outer loop (line 114) and the read \<open>files[0]\<close> of line 136.\<close>

partial_function (option) mergeInBatches ::
  "nat \<Rightarrow> string list list \<Rightarrow> (error + string list) option" where
  "mergeInBatches B files =
     (if length files > 1 then
        Option.bind (mergeRound B files 0 [])
          (\<lambda>r. case r of
                 Inl e \<Rightarrow> Some (Inl e)
               | Inr nextRoundFiles \<Rightarrow> mergeInBatches B nextRoundFiles)
      else (case files of
              [] \<Rightarrow> Some (Inl IndexOutOfRange)
            | f # _ \<Rightarrow> Some (Inr f)))"

declare mergeRound.simps [code]
declare mergeInBatches.simps [code]

text \<open>
  \<open>main\<close> after the arguments are read: \<open>B\<close> is the value of the first argument and
  \<open>lines\<close> the content of the input file. The result is the content of the file that is
  renamed to \<open>output.tsv\<close>; \<open>Inl InvalidArgument\<close> stands for the exit of line 25.
\<close>

definition main :: "nat \<Rightarrow> string list \<Rightarrow> (error + string list) option" where
  "main B lines =
     (if B \<le> 0 then Some (Inl InvalidArgument)
      else mergeInBatches B (processInputFile B lines))"

section \<open>Notions of the specification\<close>


text \<open>The records of a run as \<open>parseLine\<close> reads them, and their tokens.\<close>

definition run_records :: "string list \<Rightarrow> (string \<times> go_int) list" where
  "run_records run = map parseLine run"

definition run_words :: "string list \<Rightarrow> string list" where
  "run_words run = map fst (run_records run)"

text \<open>A run is sorted when its tokens are strictly increasing (so none occurs twice).\<close>

definition sorted_run :: "string list \<Rightarrow> bool" where
  "sorted_run run = sorted_wrt (<) (run_words run)"

text \<open>The sum of the counts that a list of records gives to a token.\<close>

definition word_total :: "(string \<times> go_int) list \<Rightarrow> string \<Rightarrow> go_int" where
  "word_total rs w = sum_list (map snd (filter (\<lambda>r. fst r = w) rs))"

text \<open>
  The exact frequency table of a list of tokens, in ascending order of the tokens, and
  the file that holds it.
\<close>

definition exact_counts :: "string list \<Rightarrow> (string \<times> go_int) list" where
  "exact_counts toks = map (\<lambda>w. (w, of_nat (count_list toks w))) (sort (remdups toks))"


text \<open>The records of several runs added up token by token, in ascending order.\<close>

definition merged_records :: "(string \<times> go_int) list \<Rightarrow> (string \<times> go_int) list" where
  "merged_records rs = map (\<lambda>w. (w, word_total rs w)) (sort (remdups (map fst rs)))"


section \<open>Invariants and auxiliary notions of the proofs\<close>

text \<open>Every entry of the heap names a scanner that exists.\<close>

definition idx_ok :: "mergeState \<Rightarrow> bool" where
  "idx_ok s = (\<forall>e \<in> set (m_heap s). fileIdx e < length (m_readers s))"

text \<open>The entries that the first loop of \<open>mergeBatch\<close> pushes, file by file.\<close>

definition first_entries :: "nat \<Rightarrow> string list list \<Rightarrow> fileEntry list" where
  "first_entries k tempFiles =
     concat (map (\<lambda>(i, f). case f of [] \<Rightarrow> [] | line # _ \<Rightarrow> [new_entry (parseLine line) i])
       (enumerate k tempFiles))"

text \<open>A map with distinct keys, and at most \<open>B\<close> of them.\<close>

definition small :: "nat \<Rightarrow> table \<Rightarrow> bool" where
  "small B m = (distinct (map fst m) \<and> length m \<le> B)"


text \<open>The line that the writers produce for the record that \<open>parseLine\<close> reads from a line.\<close>

definition canonical :: "string \<Rightarrow> string" where
  "canonical line = record_line (fst (parseLine line)) (snd (parseLine line))"



text \<open>The sum of the counts that a multiset of records gives to a token.\<close>

definition records_total :: "(string \<times> go_int) multiset \<Rightarrow> string \<Rightarrow> go_int" where
  "records_total M w = sum_mset (image_mset snd (filter_mset (\<lambda>r. fst r = w) M))"






text \<open>The map \<open>wordCount\<close> after counting a list of tokens from the empty map.\<close>

definition table_of :: "string list \<Rightarrow> table" where
  "table_of toks = foldl (\<lambda>m w. add_count m w 1) [] toks"

text \<open>The consecutive batches \<open>files[i:end]\<close> of at most \<open>B\<close> files each.\<close>

function batches :: "nat \<Rightarrow> 'a list \<Rightarrow> 'a list list" where
  "batches B xs = (if xs = [] \<or> B = 0 then [] else take B xs # batches B (drop B xs))"
  by pat_completeness auto
termination
  by (relation "measure (\<lambda>(B, xs). length xs)") auto

declare batches.simps [simp del]

text \<open>The file \<open>mergeBatch\<close> returns for a batch, and the files of the next round.\<close>

definition the_merge :: "nat \<Rightarrow> string list list \<Rightarrow> string list" where
  "the_merge B batch = (case mergeBatch B batch of Inr merged \<Rightarrow> merged | Inl e \<Rightarrow> [])"

definition merge_round :: "nat \<Rightarrow> string list list \<Rightarrow> string list list" where
  "merge_round B files = map (the_merge B) (batches B files)"










section \<open>Properties of the record format\<close>

lemma digit_char_props:
  assumes "d < 10"
  shows "digit_val (digit_char d) = int d" and "is_digit (digit_char d)"
proof -
  from assms have "d \<in> {0,1,2,3,4,5,6,7,8,9}" by auto
  then show "digit_val (digit_char d) = int d" and "is_digit (digit_char d)"
    by (auto simp: digit_val_def digit_char_def is_digit_def)
qed

lemma digits_val_snoc: "digits_val (ds @ [c]) = digits_val ds * 10 + digit_val c"
  by (simp add: digits_val_def)

lemma dec_nonempty: "dec n \<noteq> []"
  by (subst dec.simps) simp

lemma dec_all_digits: "list_all is_digit (dec n)"
proof (induction n rule: dec.induct)
  case (1 n)
  show ?case
  proof (cases "n < 10")
    case True
    then show ?thesis by (subst dec.simps) (simp add: digit_char_props)
  next
    case False
    with 1 show ?thesis by (subst dec.simps) (simp add: digit_char_props)
  qed
qed

lemma digits_val_dec: "digits_val (dec n) = int n"
proof (induction n rule: dec.induct)
  case (1 n)
  show ?case
  proof (cases "n < 10")
    case True
    then show ?thesis
      by (subst dec.simps) (simp add: digits_val_def digit_char_props)
  next
    case False
    then have "digits_val (dec (n div 10)) = int (n div 10)" using 1 by simp
    with False show ?thesis
      by (subst dec.simps) (simp add: digits_val_snoc digit_char_props zdiv_int zmod_int)
  qed
qed

lemma is_digit_not_sign: "is_digit c \<Longrightarrow> c \<noteq> CHR ''-'' \<and> c \<noteq> CHR ''+''"
  by (auto simp: is_digit_def)

lemma hd_dec_not_sign: "hd (dec n) \<noteq> CHR ''-'' \<and> hd (dec n) \<noteq> CHR ''+''"
proof -
  have "is_digit (hd (dec n))"
    using dec_all_digits [of n] dec_nonempty [of n]
    by (cases "dec n") simp_all
  then show ?thesis by (rule is_digit_not_sign)
qed

lemma Atoi_fmt_d: "Atoi (fmt_d c) = (c, True)"
proof (cases "sint c < 0")
  case True
  define m where "m = nat (- sint c)"
  have lo: "- (2 ^ 63) \<le> sint c" using sint_ge [of c] by simp
  with True have m: "int m = - sint c" "int m \<le> 2 ^ 63" by (simp_all add: m_def)
  have "fmt_d c = CHR ''-'' # dec m" using True by (simp add: fmt_d_def m_def)
  then show ?thesis
    using m by (simp add: Atoi_def dec_nonempty dec_all_digits digits_val_dec)
next
  case False
  define n where "n = nat (sint c)"
  have hi: "sint c < 2 ^ 63" using sint_lt [of c] by simp
  with False have n: "int n = sint c" "int n < 2 ^ 63" by (simp_all add: n_def)
  have "fmt_d c = dec n" using False by (simp add: fmt_d_def n_def)
  then show ?thesis
    using n hd_dec_not_sign [of n]
    by (simp add: Atoi_def dec_nonempty dec_all_digits digits_val_dec)
qed

lemma SplitN2_tab: "tab \<notin> set w \<Longrightarrow> SplitN2 (w @ tab # r) = [w, r]"
proof -
  assume "tab \<notin> set w"
  then have "takeWhile (\<lambda>c. c \<noteq> tab) (w @ tab # r) = w"
    and "dropWhile (\<lambda>c. c \<noteq> tab) (w @ tab # r) = tab # r"
    by (induction w) auto
  then show ?thesis by (simp add: SplitN2_def)
qed


lemma parseLine_record_line: "tab \<notin> set w \<Longrightarrow> parseLine (record_line w c) = (w, c)"
  by (simp add: parseLine_def record_line_def SplitN2_tab Atoi_fmt_d)


lemma fst_parseLine_no_tab: "tab \<notin> set (fst (parseLine line))"
  by (auto simp: parseLine_def SplitN2_def dest: set_takeWhileD)


section \<open>Properties of the heap\<close>

lemma length_Swap [simp]: "length (Swap h i j) = length h"
  by (simp add: Swap_def)

lemma nth_Swap:
  "i < length h \<Longrightarrow> j < length h \<Longrightarrow> k < length h \<Longrightarrow>
   Swap h i j ! k = (if k = j then h ! i else if k = i then h ! j else h ! k)"
  by (simp add: Swap_def nth_list_update)

lemma mset_Swap: "i < length h \<Longrightarrow> j < length h \<Longrightarrow> mset (Swap h i j) = mset h"
  unfolding Swap_def by (rule mset_swap)

lemma length_up [simp]: "length (up h j) = length h"
proof (induction h j rule: up.induct)
  case (1 h j)
  show ?case
  proof (cases "(j - 1) div 2 = j \<or> \<not> Less h j ((j - 1) div 2)")
    case True
    then show ?thesis by (subst up.simps) (simp add: Let_def)
  next
    case False
    then have "up h j = up (Swap h ((j - 1) div 2) j) ((j - 1) div 2)"
      by (subst up.simps) (simp add: Let_def)
    with 1 False show ?thesis by simp
  qed
qed

lemma mset_up: "j < length h \<Longrightarrow> mset (up h j) = mset h"
proof (induction h j rule: up.induct)
  case (1 h j)
  show ?case
  proof (cases "(j - 1) div 2 = j \<or> \<not> Less h j ((j - 1) div 2)")
    case True
    then show ?thesis by (subst up.simps) (simp add: Let_def)
  next
    case False
    then have eq: "up h j = up (Swap h ((j - 1) div 2) j) ((j - 1) div 2)"
      by (subst up.simps) (simp add: Let_def)
    have lt: "(j - 1) div 2 < length h" using "1.prems" by simp
    have "mset (up (Swap h ((j - 1) div 2) j) ((j - 1) div 2)) = mset (Swap h ((j - 1) div 2) j)"
      using "1.IH" [OF refl] False lt by simp
    with eq lt "1.prems" show ?thesis by (simp add: mset_Swap)
  qed
qed

lemma length_down [simp]: "length (down h i n) = length h"
proof (induction h i n rule: down.induct)
  case (1 h i n)
  define j where "j = (if 2 * i + 1 + 1 < n \<and> Less h (2 * i + 1 + 1) (2 * i + 1) then 2 * i + 1 + 1 else 2 * i + 1)"
  show ?case
  proof (cases "2 * i + 1 \<ge> n \<or> \<not> Less h j i")
    case True
    then show ?thesis by (subst down.simps) (auto simp: Let_def j_def)
  next
    case False
    then have eq: "down h i n = down (Swap h i j) j n"
      by (subst down.simps) (auto simp: Let_def j_def)
    have "length (down (Swap h i j) j n) = length (Swap h i j)"
      using "1.IH" [OF refl _ j_def] False by simp
    with eq show ?thesis by simp
  qed
qed

lemma mset_down: "n \<le> length h \<Longrightarrow> mset (down h i n) = mset h"
proof (induction h i n rule: down.induct)
  case (1 h i n)
  define j where "j = (if 2 * i + 1 + 1 < n \<and> Less h (2 * i + 1 + 1) (2 * i + 1) then 2 * i + 1 + 1 else 2 * i + 1)"
  show ?case
  proof (cases "2 * i + 1 \<ge> n \<or> \<not> Less h j i")
    case True
    then show ?thesis by (subst down.simps) (auto simp: Let_def j_def)
  next
    case False
    then have eq: "down h i n = down (Swap h i j) j n"
      by (subst down.simps) (auto simp: Let_def j_def)
    from False have jn: "j < n" "i < n" by (auto simp: j_def)
    have "mset (down (Swap h i j) j n) = mset (Swap h i j)"
      using "1.IH" [OF refl _ j_def] False "1.prems" by simp
    with eq jn "1.prems" show ?thesis by (simp add: mset_Swap)
  qed
qed


lemma parent_lt: "0 < (k::nat) \<Longrightarrow> (k - 1) div 2 < k"
  by arith

lemma up_heap: "up_inv h j \<Longrightarrow> j < length h \<Longrightarrow> is_heap (up h j)"
proof (induction h j rule: up.induct)
  case (1 h j)
  define i where "i = (j - 1) div 2"
  show ?case
  proof (cases "i = j \<or> \<not> Less h j i")
    case True
    then have eq: "up h j = h" by (subst up.simps) (simp add: Let_def i_def)
    have "word (h ! ((k - 1) div 2)) \<le> word (h ! k)" if k: "0 < k" "k < length h" for k
    proof (cases "k = j")
      case False
      with k "1.prems"(1) show ?thesis by (simp add: up_inv_def)
    next
      case kj: True
      with k parent_lt [of j] True have "\<not> Less h j i" by (auto simp: i_def)
      with kj show ?thesis by (simp add: Less_def i_def)
    qed
    with eq show ?thesis by (simp add: is_heap_def heap_upto_def)
  next
    case False
    then have eq: "up h j = up (Swap h i j) i"
      by (subst up.simps) (simp add: Let_def i_def)
    from False have lt: "word (h ! j) < word (h ! i)" and inej: "i \<noteq> j"
      by (auto simp: Less_def)
    have j0: "0 < j" using inej by (auto simp: i_def intro: Nat.gr0I)
    have ij: "i < j" using j0 by (simp add: i_def parent_lt)
    have jl: "j < length h" by (rule "1.prems"(2))
    have il: "i < length h" using ij jl by simp
    have inv1: "word (h ! ((k - 1) div 2)) \<le> word (h ! k)"
      if "0 < k" "k < length h" "k \<noteq> j" for k
      using "1.prems"(1) that by (simp add: up_inv_def)
    have inv2: "word (h ! i) \<le> word (h ! k)"
      if "0 < k" "k < length h" "(k - 1) div 2 = j" for k
      using "1.prems"(1) that j0 by (simp add: up_inv_def i_def)
    have nth: "Swap h i j ! k = (if k = j then h ! i else if k = i then h ! j else h ! k)"
      if "k < length h" for k
      using that il jl by (simp add: nth_Swap)
    have "up_inv (Swap h i j) i"
      unfolding up_inv_def
    proof (intro conjI allI impI)
      fix k
      assume k: "0 < k \<and> k < length (Swap h i j) \<and> k \<noteq> i"
      define p where "p = (k - 1) div 2"
      from k have kl: "k < length h" and k0: "0 < k" and ki: "k \<noteq> i" by auto
      have pk: "p < k" using k0 by (simp add: p_def parent_lt)
      have pl: "p < length h" using pk kl by simp
      have "word (Swap h i j ! p) \<le> word (Swap h i j ! k)"
      proof (cases "k = j")
        case True
        then have "p = i" by (simp add: p_def i_def)
        with True lt ij show ?thesis by (simp add: nth [OF il] nth [OF jl])
      next
        case kj: False
        have a: "word (h ! p) \<le> word (h ! k)" using inv1 [OF k0 kl kj] by (simp add: p_def)
        have sk: "Swap h i j ! k = h ! k" using kj ki by (simp add: nth [OF kl])
        show ?thesis
        proof (cases "p = j")
          case True
          then have "word (h ! i) \<le> word (h ! k)" using inv2 [OF k0 kl] by (simp add: p_def)
          with True sk show ?thesis by (simp add: nth [OF jl])
        next
          case pj: False
          show ?thesis
          proof (cases "p = i")
            case True
            with a lt have "word (h ! j) \<le> word (h ! k)" by simp
            with True sk inej show ?thesis by (simp add: nth [OF il])
          next
            case False
            with a pj sk show ?thesis by (simp add: nth [OF pl])
          qed
        qed
      qed
      then show "word (Swap h i j ! ((k - 1) div 2)) \<le> word (Swap h i j ! k)"
        by (simp add: p_def)
    next
      fix k
      assume k: "0 < k \<and> k < length (Swap h i j) \<and> (k - 1) div 2 = i \<and> 0 < i"
      define q where "q = (i - 1) div 2"
      from k have kl: "k < length h" and i0: "0 < i" and k0: "0 < k"
        and pk: "(k - 1) div 2 = i" by auto
      have qi: "q < i" using i0 by (simp add: q_def parent_lt)
      have ql: "q < length h" using qi il by simp
      have pi: "word (h ! q) \<le> word (h ! i)"
        using inv1 [OF i0 il] ij by (simp add: q_def)
      have k_ne_i: "k \<noteq> i" using pk parent_lt [OF k0] by auto
      have "word (h ! i) \<le> word (h ! k)" if "k \<noteq> j"
        using inv1 [OF k0 kl that] pk by simp
      with pi lt have "word (h ! q) \<le> word (if k = j then h ! i else h ! k)"
        by auto
      moreover have "Swap h i j ! q = h ! q"
        using qi ij by (simp add: nth [OF ql])
      moreover have "Swap h i j ! k = (if k = j then h ! i else h ! k)"
        using k_ne_i by (simp add: nth [OF kl])
      ultimately show "word (Swap h i j ! ((i - 1) div 2)) \<le> word (Swap h i j ! k)"
        by (simp add: q_def)
    qed
    then have "is_heap (up (Swap h i j) i)"
      using "1.IH" [OF i_def] False il by simp
    with eq show ?thesis by simp
  qed
qed

lemma is_heap_Push: "is_heap h \<Longrightarrow> is_heap (heap_Push h x)"
proof -
  assume h: "is_heap h"
  have "up_inv (h @ [x]) (length h)"
    unfolding up_inv_def
  proof (intro conjI allI impI)
    fix k
    assume k: "0 < k \<and> k < length (h @ [x]) \<and> k \<noteq> length h"
    then have "k < length h" by simp
    moreover from this have "(k - 1) div 2 < length h" by arith
    ultimately show "word ((h @ [x]) ! ((k - 1) div 2)) \<le> word ((h @ [x]) ! k)"
      using h k by (simp add: is_heap_def heap_upto_def nth_append)
  next
    fix k
    assume k: "0 < k \<and> k < length (h @ [x]) \<and> (k - 1) div 2 = length h \<and> 0 < length h"
    then have False using parent_lt [of k] by simp
    then show "word ((h @ [x]) ! ((length h - 1) div 2)) \<le> word ((h @ [x]) ! k)" ..
  qed
  then show ?thesis
    unfolding heap_Push_def by (intro up_heap) simp_all
qed

lemma mset_Push: "mset (heap_Push h x) = add_mset x (mset h)"
  by (simp add: heap_Push_def mset_up)

lemma length_Push [simp]: "length (heap_Push h x) = Suc (length h)"
  by (simp add: heap_Push_def)





lemma is_heap_Nil [simp]: "is_heap []"
  by (simp add: is_heap_def heap_upto_def)

section \<open>Termination of the merge loop\<close>

lemma length_Pop: "length (snd (heap_Pop h)) = length h - 1"
  by (simp add: heap_Pop_def Let_def)

lemma pending_update:
  assumes "i < length rs" and "rs ! i = l # ls"
  shows "Suc (sum_list (map length (rs[i := ls]))) = sum_list (map length rs)"
  using assms
proof (induction rs arbitrary: i)
  case Nil
  then show ?case by simp
next
  case (Cons r rs)
  then show ?case by (cases i) auto
qed

lemma mergeStep_pending:
  assumes "m_heap s \<noteq> []" and "mergeStep B s = Inr s'"
  shows "pending s' < pending s"
proof -
  obtain entry h1 where pop: "heap_Pop (m_heap s) = (entry, h1)" by (cases "heap_Pop (m_heap s)")
  have len: "Suc (length h1) = length (m_heap s)"
    using length_Pop [of "m_heap s"] pop assms(1) by simp
  show ?thesis
  proof (cases "m_readers s ! fileIdx entry")
    case Nil
    with assms(2) pop len show ?thesis
      by (auto simp: mergeStep_def Let_def pending_def split: if_splits)
  next
    case (Cons line rest)
    from assms(2) pop have "fileIdx entry < length (m_readers s)"
      by (auto simp: mergeStep_def Let_def split: if_splits)
    from pending_update [OF this Cons] assms(2) pop len Cons show ?thesis
      by (auto simp: mergeStep_def Let_def pending_def split: if_splits)
  qed
qed

termination mergeLoop
proof (relation "measure (\<lambda>(B, s). pending s)")
  show "wf (measure (\<lambda>(B, s). pending s))" by (rule wf_measure)
next
  fix B s x2
  assume "0 < length (m_heap s)" and "mergeStep B s = Inr x2"
  then have "pending x2 < pending s" by (intro mergeStep_pending [of s B]) simp_all
  then show "((B, x2), B, s) \<in> measure (\<lambda>(B, s). pending s)" by simp
qed

declare mergeLoop.simps [simp del]

termination mergeLoop_hist
proof (relation "measure (\<lambda>(B, s). pending s)")
  show "wf (measure (\<lambda>(B, s). pending s))" by (rule wf_measure)
next
  fix B s x2
  assume "0 < length (m_heap s)" and "mergeStep B s = Inr x2"
  then have "pending x2 < pending s" by (intro mergeStep_pending [of s B]) simp_all
  then show "((B, x2), B, s) \<in> measure (\<lambda>(B, s). pending s)" by simp
qed

declare mergeLoop_hist.simps [simp del]

section \<open>The merge loop never fails\<close>

lemma heap_Pop_mset:
  assumes ne: "h \<noteq> []" and pop: "heap_Pop h = (x, h')"
  shows "mset h = add_mset x (mset h')"
proof -
  define n where "n = length h - 1"
  define h1 where "h1 = down (Swap h 0 n) 0 n"
  have nl: "n < length h" using ne by (simp add: n_def)
  have len1: "length h1 = length h" by (simp add: h1_def)
  have x: "x = last h1" and h': "h' = butlast h1"
    using pop by (simp_all add: heap_Pop_def Let_def n_def h1_def)
  have h1ne: "h1 \<noteq> []" using len1 ne by auto
  have "mset (Swap h 0 n) = mset h" using nl by (intro mset_Swap) auto
  then have "mset h1 = mset h" using nl by (simp add: h1_def mset_down)
  moreover have "h1 = h' @ [x]" using h1ne by (simp add: x h')
  ultimately have "mset h = mset (h' @ [x])" by simp
  then show ?thesis by simp
qed

lemma heap_Pop_set:
  assumes "h \<noteq> []" and "heap_Pop h = (x, h')"
  shows "set h = insert x (set h')"
proof -
  have "set_mset (mset h) = set_mset (add_mset x (mset h'))"
    using heap_Pop_mset [OF assms] by simp
  then show ?thesis by simp
qed

lemma set_Push: "set (heap_Push h x) = insert x (set h)"
proof -
  have "set_mset (mset (heap_Push h x)) = set_mset (add_mset x (mset h))"
    by (simp only: mset_Push)
  then show ?thesis by simp
qed

text \<open>The shape of one iteration.\<close>

lemma mergeStep_cases:
  assumes pop: "heap_Pop (m_heap s) = (e, h1)" and idx: "fileIdx e < length (m_readers s)"
  obtains
    (exhausted) "m_readers s ! fileIdx e = []"
      "mergeStep B s = Inr \<lparr>m_heap = h1, m_readers = m_readers s,
         m_wordBuffer = last (mergeStep_hist B s),
         m_writer = (if map_of (m_wordBuffer s) (word e) = None \<and> B \<le> length (m_wordBuffer s)
                     then m_writer s @ flushBufferToWriter (m_wordBuffer s) else m_writer s)\<rparr>"
  | (next_record) line rest where "m_readers s ! fileIdx e = line # rest"
      "mergeStep B s = Inr \<lparr>m_heap = heap_Push h1 (new_entry (parseLine line) (fileIdx e)),
         m_readers = (m_readers s)[fileIdx e := rest],
         m_wordBuffer = last (mergeStep_hist B s),
         m_writer = (if map_of (m_wordBuffer s) (word e) = None \<and> B \<le> length (m_wordBuffer s)
                     then m_writer s @ flushBufferToWriter (m_wordBuffer s) else m_writer s)\<rparr>"
proof (cases "m_readers s ! fileIdx e")
  case Nil
  with pop idx have "mergeStep B s = Inr \<lparr>m_heap = h1, m_readers = m_readers s,
         m_wordBuffer = last (mergeStep_hist B s),
         m_writer = (if map_of (m_wordBuffer s) (word e) = None \<and> B \<le> length (m_wordBuffer s)
                     then m_writer s @ flushBufferToWriter (m_wordBuffer s) else m_writer s)\<rparr>"
    by (simp add: mergeStep_def mergeStep_hist_def Let_def)
  with Nil show ?thesis by (rule exhausted)
next
  case (Cons line rest)
  with pop idx have "mergeStep B s = Inr \<lparr>m_heap = heap_Push h1 (new_entry (parseLine line) (fileIdx e)),
         m_readers = (m_readers s)[fileIdx e := rest],
         m_wordBuffer = last (mergeStep_hist B s),
         m_writer = (if map_of (m_wordBuffer s) (word e) = None \<and> B \<le> length (m_wordBuffer s)
                     then m_writer s @ flushBufferToWriter (m_wordBuffer s) else m_writer s)\<rparr>"
    by (simp add: mergeStep_def mergeStep_hist_def Let_def)
  with Cons show ?thesis by (rule next_record)
qed

lemma mergeStep_idx_ok:
  assumes ok: "idx_ok s" and ne: "m_heap s \<noteq> []"
  shows "\<exists>s'. mergeStep B s = Inr s' \<and> idx_ok s'"
proof -
  obtain e h1 where pop: "heap_Pop (m_heap s) = (e, h1)" by (cases "heap_Pop (m_heap s)")
  have set: "set (m_heap s) = insert e (set h1)" by (rule heap_Pop_set [OF ne pop])
  then have idx: "fileIdx e < length (m_readers s)" using ok by (simp add: idx_ok_def)
  from pop idx show ?thesis
  proof (cases rule: mergeStep_cases [where B = B])
    case exhausted
    then show ?thesis using ok set by (simp add: idx_ok_def)
  next
    case (next_record line rest)
    then show ?thesis using ok set idx by (simp add: idx_ok_def set_Push new_entry_def)
  qed
qed

lemma mergeLoop_total: "idx_ok s \<Longrightarrow> \<exists>out. mergeLoop B s = Inr out"
proof (induction B s rule: mergeLoop.induct)
  case (1 B s)
  show ?case
  proof (cases "m_heap s = []")
    case True
    then show ?thesis by (subst mergeLoop.simps) simp
  next
    case False
    then obtain s' where s': "mergeStep B s = Inr s'" "idx_ok s'"
      using mergeStep_idx_ok [OF "1.prems"] by blast
    with False "1.IH" [of s'] show ?thesis by (subst mergeLoop.simps) simp
  qed
qed

lemma open_fold:
  "mset (foldl (\<lambda>h (i, f). case f of [] \<Rightarrow> h
                          | line # _ \<Rightarrow> heap_Push h (new_entry (parseLine line) i))
          h0 (enumerate k fs)) = mset h0 + mset (first_entries k fs) \<and>
   (is_heap h0 \<longrightarrow> is_heap (foldl (\<lambda>h (i, f). case f of [] \<Rightarrow> h
                          | line # _ \<Rightarrow> heap_Push h (new_entry (parseLine line) i))
          h0 (enumerate k fs)))"
proof (induction fs arbitrary: h0 k)
  case Nil
  then show ?case by (simp add: first_entries_def)
next
  case (Cons f fs)
  show ?case
  proof (cases f)
    case Nil
    with Cons [of h0 "Suc k"] show ?thesis by (simp add: first_entries_def)
  next
    case (Cons line rest)
    with Cons.IH [of "heap_Push h0 (new_entry (parseLine line) k)" "Suc k"] show ?thesis
      by (simp add: first_entries_def mset_Push is_heap_Push)
  qed
qed

lemma mset_open_heap: "mset (open_heap fs) = mset (first_entries 0 fs)"
  using open_fold [of "[]" 0 fs] by (simp add: open_heap_def)


lemma set_first_entries:
  "set (first_entries k fs) =
     {new_entry (parseLine (hd (fs ! i))) (k + i) | i. i < length fs \<and> fs ! i \<noteq> []}"
proof (induction fs arbitrary: k)
  case Nil
  then show ?case by (simp add: first_entries_def)
next
  case (Cons f fs)
  have split: "{new_entry (parseLine (hd ((f # fs) ! i))) (k + i) | i. i < length (f # fs) \<and> (f # fs) ! i \<noteq> []}
    = (if f = [] then {} else {new_entry (parseLine (hd f)) k}) \<union>
      {new_entry (parseLine (hd (fs ! i))) (Suc k + i) | i. i < length fs \<and> fs ! i \<noteq> []}"
    (is "?L = ?A \<union> ?R")
  proof (intro set_eqI iffI)
    fix x assume "x \<in> ?L"
    then obtain i where i: "x = new_entry (parseLine (hd ((f # fs) ! i))) (k + i)"
      "i < length (f # fs)" "(f # fs) ! i \<noteq> []" by blast
    show "x \<in> ?A \<union> ?R"
    proof (cases i)
      case 0
      with i show ?thesis by simp
    next
      case (Suc j)
      with i have "x = new_entry (parseLine (hd (fs ! j))) (Suc k + j)" "j < length fs" "fs ! j \<noteq> []"
        by simp_all
      then show ?thesis by blast
    qed
  next
    fix x assume "x \<in> ?A \<union> ?R"
    then consider "f \<noteq> []" "x = new_entry (parseLine (hd f)) k"
      | j where "x = new_entry (parseLine (hd (fs ! j))) (Suc k + j)" "j < length fs" "fs ! j \<noteq> []"
      by (auto split: if_splits)
    then show "x \<in> ?L"
    proof cases
      case 1
      then have "x = new_entry (parseLine (hd ((f # fs) ! 0))) (k + 0) \<and> 0 < length (f # fs) \<and> (f # fs) ! 0 \<noteq> []"
        by simp
      then show ?thesis by blast
    next
      case 2
      then have "x = new_entry (parseLine (hd ((f # fs) ! Suc j))) (k + Suc j) \<and> Suc j < length (f # fs) \<and> (f # fs) ! Suc j \<noteq> []"
        by simp
      then show ?thesis by blast
    qed
  qed
  have "set (first_entries k (f # fs)) =
        (if f = [] then {} else {new_entry (parseLine (hd f)) k}) \<union> set (first_entries (Suc k) fs)"
    by (cases f) (simp_all add: first_entries_def)
  with Cons [of "Suc k"] split show ?case by simp
qed

lemma set_open_heap:
  "set (open_heap fs) = {new_entry (parseLine (hd (fs ! i))) i | i. i < length fs \<and> fs ! i \<noteq> []}"
proof -
  have "set (open_heap fs) = set (first_entries 0 fs)"
    using mset_open_heap [of fs] by (metis set_mset_mset)
  then show ?thesis by (simp add: set_first_entries)
qed

lemma idx_ok_init: "idx_ok (init_state fs)"
  by (auto simp: idx_ok_def init_state_def set_open_heap open_readers_def new_entry_def)

lemma mergeBatch_total: "\<exists>out. mergeBatch B fs = Inr out"
  using mergeLoop_total [OF idx_ok_init, of B fs] by (simp add: mergeBatch_def)

section \<open>The maps stay within the bound\<close>

lemma keys_add_count:
  "map fst (add_count m k n) = (if k \<in> fst ` set m then map fst m else map fst m @ [k])"
  by (simp add: add_count_def update_keys)

lemma distinct_add_count: "distinct (map fst m) \<Longrightarrow> distinct (map fst (add_count m k n))"
  by (simp add: add_count_def distinct_update)

lemma length_add_count:
  "length (add_count m k n) = (if k \<in> fst ` set m then length m else Suc (length m))"
proof -
  have "length (map fst (add_count m k n)) = (if k \<in> fst ` set m then length m else Suc (length m))"
    by (simp only: keys_add_count) simp
  then show ?thesis by simp
qed



lemma map_of_None_iff_keys: "map_of m k = None \<longleftrightarrow> k \<notin> fst ` set m"
  by (simp add: map_of_eq_None_iff)

lemma mergeStep_hist_small:
  assumes B: "0 < B" and m: "small B (m_wordBuffer s)"
  shows "\<forall>m \<in> set (mergeStep_hist B s). small B m"
proof -
  obtain e h1 where pop: "heap_Pop (m_heap s) = (e, h1)" by (cases "heap_Pop (m_heap s)")
  show ?thesis
  proof (cases "map_of (m_wordBuffer s) (word e) = None \<and> B \<le> length (m_wordBuffer s)")
    case True
    then have "mergeStep_hist B s = [[], add_count [] (word e) (count e)]"
      using pop by (simp add: mergeStep_hist_def Let_def)
    then show ?thesis using B by (simp add: small_def length_add_count distinct_add_count)
  next
    case False
    then have eq: "mergeStep_hist B s = [add_count (m_wordBuffer s) (word e) (count e)]"
      using pop by (auto simp: mergeStep_hist_def Let_def)
    have "length (add_count (m_wordBuffer s) (word e) (count e)) \<le> B"
      using False m by (auto simp: length_add_count map_of_None_iff_keys small_def)
    with eq m show ?thesis by (simp add: small_def distinct_add_count)
  qed
qed

lemma mergeStep_hist_nonempty: "mergeStep_hist B s \<noteq> []"
  by (cases "heap_Pop (m_heap s)") (simp add: mergeStep_hist_def Let_def)

lemma mergeStep_wordBuffer:
  assumes "mergeStep B s = Inr s'"
  shows "m_wordBuffer s' = last (mergeStep_hist B s)"
proof -
  obtain e h1 where pop: "heap_Pop (m_heap s) = (e, h1)" by (cases "heap_Pop (m_heap s)")
  have idx: "fileIdx e < length (m_readers s)"
    using assms pop by (auto simp: mergeStep_def Let_def split: if_splits)
  from pop idx show ?thesis
    by (cases rule: mergeStep_cases [where B = B]) (use assms in auto)
qed

lemma mergeLoop_hist_small:
  "0 < B \<Longrightarrow> small B (m_wordBuffer s) \<Longrightarrow> \<forall>m \<in> set (mergeLoop_hist B s). small B m"
proof (induction B s rule: mergeLoop_hist.induct)
  case (1 B s)
  show ?case
  proof (cases "m_heap s = []")
    case True
    then show ?thesis by (subst mergeLoop_hist.simps) simp
  next
    case False
    have step: "\<forall>m \<in> set (mergeStep_hist B s). small B m"
      using "1.prems" by (rule mergeStep_hist_small)
    show ?thesis
    proof (cases "mergeStep B s")
      case (Inl e)
      with False step show ?thesis by (subst mergeLoop_hist.simps) simp
    next
      case (Inr s')
      have "small B (m_wordBuffer s')"
        using step mergeStep_wordBuffer [OF Inr] mergeStep_hist_nonempty [of B s]
        by (simp add: last_in_set)
      with "1.IH" [OF _ Inr] "1.prems"(1) False
      have "\<forall>m \<in> set (mergeLoop_hist B s'). small B m" by simp
      with False step Inr show ?thesis by (subst mergeLoop_hist.simps) auto
    qed
  qed
qed

lemma mergeBatch_hist_small: "0 < B \<Longrightarrow> \<forall>m \<in> set (mergeBatch_hist B fs). small B m"
  using mergeLoop_hist_small [of B "init_state fs"]
  by (simp add: mergeBatch_hist_def init_state_def small_def)

lemma scanLoop_hist_small:
  "0 < B \<Longrightarrow> distinct (map fst wc) \<Longrightarrow> length wc < B \<Longrightarrow>
   \<forall>m \<in> set (scanLoop_hist B lines wc). small B m"
proof (induction lines arbitrary: wc)
  case Nil
  then show ?case by simp
next
  case (Cons line lines)
  show ?case
  proof (cases "TrimSpace line = []")
    case True
    with Cons show ?thesis by simp
  next
    case False
    define wc1 where "wc1 = add_count wc (TrimSpace line) 1"
    have d1: "distinct (map fst wc1)" using Cons.prems by (simp add: wc1_def distinct_add_count)
    have l1: "length wc1 \<le> B" using Cons.prems by (simp add: wc1_def length_add_count)
    show ?thesis
    proof (cases "B \<le> length wc1")
      case True
      then have "scanLoop_hist B (line # lines) wc = wc1 # [] # scanLoop_hist B lines []"
        using False by (simp add: wc1_def Let_def)
      moreover have "\<forall>m \<in> set (scanLoop_hist B lines []). small B m"
        using Cons.IH [of "[]"] Cons.prems(1) by simp
      ultimately show ?thesis using d1 l1 by (simp add: small_def)
    next
      case nf: False
      then have "scanLoop_hist B (line # lines) wc = wc1 # scanLoop_hist B lines wc1"
        using False by (simp add: wc1_def Let_def)
      moreover have "\<forall>m \<in> set (scanLoop_hist B lines wc1). small B m"
        using Cons.IH [of wc1] Cons.prems(1) d1 nf by simp
      ultimately show ?thesis using d1 l1 by (simp add: small_def)
    qed
  qed
qed

text \<open>The histories follow the variables of the loops they instrument.\<close>

lemma scanLoop_hist_last:
  "fst (scanLoop B lines wc tf) = last (wc # scanLoop_hist B lines wc)"
proof (induction lines arbitrary: wc tf)
  case Nil
  then show ?case by simp
next
  case (Cons line lines)
  show ?case
  proof (cases "TrimSpace line = []")
    case True
    with Cons show ?thesis by simp
  next
    case False
    then show ?thesis
      using Cons [of "[]"] Cons [of "add_count wc (TrimSpace line) 1"]
      by (simp add: Let_def)
  qed
qed

section \<open>Malformed records\<close>



lemma parseLine_canonical [simp]: "parseLine (canonical line) = parseLine line"
  by (simp add: canonical_def parseLine_record_line fst_parseLine_no_tab)






section \<open>Totals of records and the flush\<close>

lemma records_total_empty [simp]: "records_total {#} w = 0"
  by (simp add: records_total_def)

lemma records_total_add_mset [simp]:
  "records_total (add_mset r M) w = (if fst r = w then snd r else 0) + records_total M w"
  by (simp add: records_total_def)

lemma records_total_union [simp]: "records_total (M + N) w = records_total M w + records_total N w"
  by (simp add: records_total_def)


lemma word_total_Nil [simp]: "word_total [] w = 0"
  by (simp add: word_total_def)

lemma word_total_append [simp]: "word_total (a @ b) w = word_total a w + word_total b w"
  by (simp add: word_total_def)



lemma run_records_append [simp]: "run_records (a @ b) = run_records a @ run_records b"
  by (simp add: run_records_def)

lemma run_words_append [simp]: "run_words (a @ b) = run_words a @ run_words b"
  by (simp add: run_words_def)

lemma run_records_Nil [simp]: "run_records [] = []"
  by (simp add: run_records_def)

lemma run_words_Nil [simp]: "run_words [] = []"
  by (simp add: run_words_def)





lemma set_sorted_words [simp]: "set (sorted_words m) = fst ` set m"
  by (simp add: sorted_words_def)




lemma flush_Nil [simp]: "flushBufferToWriter [] = []"
  by (simp add: flushBufferToWriter_def sorted_words_def)

lemma flushToTempFile_eq: "flushToTempFile m = flushBufferToWriter m"
  by (simp add: flushToTempFile_def flushBufferToWriter_def)




lemma sorted_run_Nil [simp]: "sorted_run []"
  by (simp add: sorted_run_def)

section \<open>The invariant of the merge loop\<close>














section \<open>The runs of the input phase\<close>

lemma table_of_Nil [simp]: "table_of [] = []"
  by (simp add: table_of_def)











lemma exact_counts_words [simp]: "map fst (exact_counts toks) = sort (remdups toks)"
  by (simp add: exact_counts_def comp_def)














section \<open>The rounds of the merge scheduler\<close>

lemma mergeBatch_the_merge: "mergeBatch B batch = Inr (the_merge B batch)"
  using mergeBatch_total [of B batch] by (auto simp: the_merge_def)

lemma batches_Nil [simp]: "batches B [] = []"
  by (subst batches.simps) simp

lemma batches_step: "0 < B \<Longrightarrow> xs \<noteq> [] \<Longrightarrow> batches B xs = take B xs # batches B (drop B xs)"
  by (subst batches.simps) simp


lemma batches_nonempty: "0 < B \<Longrightarrow> xs \<noteq> [] \<Longrightarrow> batches B xs \<noteq> []"
  by (simp add: batches_step)

lemma length_batches_one: "length (batches (Suc 0) xs) = length xs"
proof (induction xs)
  case Nil
  then show ?case by simp
next
  case (Cons x xs)
  then show ?case by (simp add: batches_step)
qed

lemma length_batches_half: "2 \<le> B \<Longrightarrow> 2 * length (batches B xs) \<le> length xs + 1"
proof (induction B xs rule: batches.induct)
  case (1 B xs)
  show ?case
  proof (cases "xs = []")
    case True
    then show ?thesis by simp
  next
    case False
    have eq: "batches B xs = take B xs # batches B (drop B xs)"
      using False "1.prems" by (simp add: batches_step)
    have ih: "2 * length (batches B (drop B xs)) \<le> length (drop B xs) + 1"
      using "1.IH" False "1.prems" by simp
    show ?thesis
    proof (cases "length xs \<le> B")
      case True
      then have "batches B (drop B xs) = []" by simp
      with eq False show ?thesis by (cases xs) simp_all
    next
      case False
      with ih "1.prems" eq show ?thesis by simp
    qed
  qed
qed

lemma length_batches_less:
  "2 \<le> B \<Longrightarrow> 2 \<le> length xs \<Longrightarrow> length (batches B xs) < length xs"
  using length_batches_half [of B xs] by simp


text \<open>The inner loop of \<open>mergeInBatches\<close> merges the batches one after the other.\<close>

lemma mergeRound_eq:
  assumes "0 < B"
  shows "mergeRound B files i acc = Some (Inr (acc @ merge_round B (drop i files)))"
proof (induction "length files - i" arbitrary: i acc rule: less_induct)
  case less
  show ?case
  proof (cases "i < length files")
    case False
    then show ?thesis by (subst mergeRound.simps) (simp add: merge_round_def)
  next
    case True
    define batch where "batch = take B (drop i files)"
    have b: "take ((if length files < i + B then length files else i + B) - i) (drop i files) = batch"
      by (simp add: batch_def)
    have ne: "drop i files \<noteq> []" using True by simp
    have next_round: "mergeRound B files (i + B) (acc @ [the_merge B batch]) =
          Some (Inr ((acc @ [the_merge B batch]) @ merge_round B (drop (i + B) files)))"
      using True assms by (intro less) simp
    have "mergeRound B files i acc = mergeRound B files (i + B) (acc @ [the_merge B batch])"
      using True by (subst mergeRound.simps) (simp add: Let_def b mergeBatch_the_merge)
    also note next_round
    also have "(acc @ [the_merge B batch]) @ merge_round B (drop (i + B) files) =
               acc @ merge_round B (drop i files)"
      using assms ne by (simp add: merge_round_def batches_step batch_def add.commute)
    finally show ?thesis .
  qed
qed

lemma mergeInBatches_round:
  "0 < B \<Longrightarrow> 1 < length files \<Longrightarrow> mergeInBatches B files = mergeInBatches B (merge_round B files)"
  by (subst mergeInBatches.simps) (simp add: mergeRound_eq)

lemma mergeInBatches_single: "mergeInBatches B [f] = Some (Inr f)"
  by (subst mergeInBatches.simps) simp

lemma length_merge_round: "length (merge_round B files) = length (batches B files)"
  by (simp add: merge_round_def)

text \<open>With a fan-in of at least two, every round has fewer files than the one before.\<close>

lemma mergeInBatches_returns:
  assumes "2 \<le> B" and "files \<noteq> []"
  shows "\<exists>out. mergeInBatches B files = Some (Inr out)"
  using assms(2)
proof (induction "length files" arbitrary: files rule: less_induct)
  case less
  show ?case
  proof (cases "1 < length files")
    case False
    with less.prems obtain f where "files = [f]" by (cases files) auto
    then show ?thesis by (simp add: mergeInBatches_single)
  next
    case True
    have "length (merge_round B files) < length files"
      using True assms(1) by (simp add: length_merge_round length_batches_less)
    moreover have "merge_round B files \<noteq> []"
      using less.prems assms(1) by (simp add: merge_round_def batches_nonempty)
    ultimately have "\<exists>out. mergeInBatches B (merge_round B files) = Some (Inr out)"
      by (rule less.hyps)
    then show ?thesis using True assms(1) by (simp add: mergeInBatches_round)
  qed
qed







text \<open>With a fan-in of one a round returns as many files as it is given.\<close>

lemma mergeInBatches_one_returns:
  assumes "mergeInBatches B0 fs0 = Some y0"
  shows "\<not> (B0 = Suc 0 \<and> 2 \<le> length fs0)"
proof (rule mergeInBatches.raw_induct
    [where P = "\<lambda>B fs y. \<not> (B = Suc 0 \<and> 2 \<le> length fs)", OF _ assms])
  fix f :: "nat \<Rightarrow> string list list \<Rightarrow> (error + string list) option"
    and B fs y
  assume ih: "\<And>B fs y. f B fs = Some y \<Longrightarrow> \<not> (B = Suc 0 \<and> 2 \<le> length fs)"
    and body: "(if 1 < length fs
         then Option.bind (mergeRound B fs 0 [])
                (\<lambda>r. case r of Inl e \<Rightarrow> Some (Inl e)
                     | Inr nextRoundFiles \<Rightarrow> f B nextRoundFiles)
         else case fs of [] \<Rightarrow> Some (Inl IndexOutOfRange) | f # x \<Rightarrow> Some (Inr f)) = Some y"
  show "\<not> (B = Suc 0 \<and> 2 \<le> length fs)"
  proof
    assume a: "B = Suc 0 \<and> 2 \<le> length fs"
    then have "f (Suc 0) (merge_round (Suc 0) fs) = Some y"
      using body by (simp add: mergeRound_eq)
    then have "\<not> (Suc 0 = Suc 0 \<and> 2 \<le> length (merge_round (Suc 0) fs))"
      by (rule ih)
    with a show False by (simp add: length_merge_round length_batches_one)
  qed
qed

lemma mergeInBatches_one_diverges:
  assumes "2 \<le> length files"
  shows "mergeInBatches (Suc 0) files = None"
proof (cases "mergeInBatches (Suc 0) files")
  case None
  then show ?thesis .
next
  case (Some y)
  from mergeInBatches_one_returns [OF this] assms show ?thesis by simp
qed

section \<open>Arbitrary input files\<close>






section \<open>Merging in any grouping\<close>









section \<open>Counts as numbers\<close>





section \<open>The claims\<close>

subsection \<open>Claim C1: conservation\<close>




subsection \<open>Claim C2: sorted runs\<close>




subsection \<open>Claim C3: termination of the merge scheduler\<close>

text \<open>
  Claim C3. For every valid configuration (a positive \<open>B\<close>) and every non-empty list of
  runs, \<open>mergeInBatches\<close> is expected to terminate, each round leaving fewer runs. With
  \<open>B = 1\<close>, which \<open>main\<close> accepts, it does not: every batch is a single file, a round
  returns as many files as it was given, and the loop of line 114 never ends. So
  \<open>mergeInBatches 1\<close> returns for no list of two or more runs, and \<open>main 1\<close> returns for no
  input with two tokens or more, such as the lines \<open>a\<close> and \<open>b\<close>.
\<close>

theorem fan_in_one_never_returns:
  "mergeInBatches 1 (r1 # r2 # rs) = None \<and>
   processInputFile 1 [''a'', ''b''] = [[record_line ''a'' 1], [record_line ''b'' 1]] \<and>
   main 1 [''a'', ''b''] = None"
proof -
  have a: "mergeInBatches 1 (r1 # r2 # rs) = None" for r1 r2 rs
    using mergeInBatches_one_diverges [of "r1 # r2 # rs"] by simp
  have b: "processInputFile 1 [''a'', ''b''] = [[record_line ''a'' 1], [record_line ''b'' 1]]"
    by code_simp
  show ?thesis using a b by (simp add: main_def)
qed

text \<open>
  For every bound of at least two the scheduler does terminate, on the empty list of runs
  with the panic of claim C4 and on any other list with a file; a round of two or more
  runs leaves fewer runs than it was given.
\<close>

lemma fan_in_two_returns:
  assumes "2 \<le> B"
  shows "\<exists>r. mergeInBatches B files = Some r"
    and "2 \<le> length files \<Longrightarrow> length (merge_round B files) < length files"
proof -
  show "\<exists>r. mergeInBatches B files = Some r"
  proof (cases "files = []")
    case True
    then show ?thesis by (simp add: mergeInBatches.simps)
  next
    case False
    with mergeInBatches_returns [OF assms] show ?thesis by blast
  qed
  show "2 \<le> length files \<Longrightarrow> length (merge_round B files) < length files"
    using assms by (simp add: length_merge_round length_batches_less)
qed

subsection \<open>Claim C4: the empty input\<close>

text \<open>
  Claim C4. For the empty input the run-building phase produces zero runs, and the
  pipeline is expected to complete with an empty result. The first half holds. The
  second does not: with zero runs the loop of \<open>mergeInBatches\<close> is skipped and the read
  \<open>files[0]\<close> of line 136 is out of range, so for every positive bound \<open>Suc B\<close> the program
  panics instead of producing an output.
\<close>

theorem empty_input_panics:
  "processInputFile B [] = [] \<and>
   mergeInBatches B [] = Some (Inl IndexOutOfRange) \<and>
   main (Suc B) [] = Some (Inl IndexOutOfRange)"
  by (simp add: processInputFile_def mergeInBatches.simps main_def)

subsection \<open>Claim C5: the memory bound\<close>

text \<open>
  Claim C5. At every point of the computation, for every input and every positive \<open>B\<close>,
  neither the map \<open>wordCount\<close> of \<open>processInputFile\<close> nor the map \<open>wordBuffer\<close> of
  \<open>mergeBatch\<close> holds more than \<open>B\<close> distinct tokens. The histories list every value the
  two variables take, for every input file and for every list of files handed to
  \<open>mergeBatch\<close>; each value has distinct keys and at most \<open>B\<close> of them. The last conjunct
  ties the history of \<open>wordCount\<close> to the loop it instruments (lemma
  \<open>mergeStep_wordBuffer\<close> does the same for \<open>wordBuffer\<close>).
\<close>

theorem memory_bound:
  assumes "0 < B"
  shows "(\<forall>m \<in> set ([] # scanLoop_hist B lines []). distinct (map fst m) \<and> length m \<le> B) \<and>
         (\<forall>m \<in> set (mergeBatch_hist B tempFiles). distinct (map fst m) \<and> length m \<le> B) \<and>
         fst (scanLoop B lines [] []) = last ([] # scanLoop_hist B lines [])"
proof -
  have "\<forall>m \<in> set (scanLoop_hist B lines []). small B m"
    using assms by (intro scanLoop_hist_small) simp_all
  moreover have "\<forall>m \<in> set (mergeBatch_hist B tempFiles). small B m"
    using assms by (rule mergeBatch_hist_small)
  ultimately show ?thesis
    using scanLoop_hist_last [of B lines "[]" "[]"] by (simp add: small_def)
qed

theorem memory_bound_witness:
  "(0::nat) < 2 \<and>
   list_all (\<lambda>m. distinct (map fst m) \<and> length m \<le> 2)
     ([] # scanLoop_hist 2 [''a'', ''b'', ''a'', ''c'', ''b'', ''a''] []) \<and>
   list_all (\<lambda>m. distinct (map fst m) \<and> length m \<le> 2)
     (mergeBatch_hist 2 [[record_line ''a'' 1, record_line ''b'' 1],
                         [record_line ''a'' 1, record_line ''c'' 1]]) \<and>
   length (scanLoop_hist 2 [''a'', ''b'', ''a'', ''c'', ''b'', ''a''] []) = 9"
proof -
  have len: "length (scanLoop_hist 2 [''a'', ''b'', ''a'', ''c'', ''b'', ''a''] []) = 9"
    by code_simp
  have pos: "(0::nat) < 2" by simp
  from memory_bound [OF pos, of "[''a'', ''b'', ''a'', ''c'', ''b'', ''a'']"
      "[[record_line ''a'' 1, record_line ''b'' 1], [record_line ''a'' 1, record_line ''c'' 1]]"]
  show ?thesis using len by (simp add: list_all_iff)
qed

subsection \<open>Claim C6: merging in any grouping\<close>



subsection \<open>Claim C7: malformed records\<close>



subsection \<open>Claim C8: a single run\<close>

text \<open>
  Claim C8. If the run-building phase produces exactly one run, the merge scheduler
  performs no merging and the final output equals that run unchanged: \<open>mergeInBatches\<close>
  returns the only element of a one-element list without entering its loop, and so does
  \<open>main\<close> for every input that yields one run.
\<close>

theorem single_run_unchanged:
  "mergeInBatches B [run] = Some (Inr run) \<and>
   (0 < B \<and> processInputFile B lines = [run] \<longrightarrow> main B lines = Some (Inr run))"
  by (simp add: mergeInBatches.simps main_def)

theorem single_run_unchanged_witness:
  "0 < (3::nat) \<and>
   processInputFile 3 [''a'', ''b'', ''a''] = [[''a'' @ [tab] @ ''2'', ''b'' @ [tab] @ ''1'']] \<and>
   main 3 [''a'', ''b'', ''a''] = Some (Inr [''a'' @ [tab] @ ''2'', ''b'' @ [tab] @ ''1''])"
proof -
  have run: "processInputFile 3 [''a'', ''b'', ''a''] = [[''a'' @ [tab] @ ''2'', ''b'' @ [tab] @ ''1'']]"
    by code_simp
  with single_run_unchanged [of 3 "[''a'' @ [tab] @ ''2'', ''b'' @ [tab] @ ''1'']" "[''a'', ''b'', ''a'']"]
  show ?thesis by simp
qed

subsection \<open>Claim C9: writing a record and reading it back\<close>

text \<open>
  Claim C9, as amended. For every token that contains no tab character and every count,
  \<open>parseLine\<close> applied to the line the writers produce (the token, one tab, the decimal
  count) returns exactly that token and that count. The claim as stated, for every token,
  fails: \<open>parseLine\<close> splits at the first tab, so a token with a tab comes back cut at that
  tab, and the rest of the line is not a number.
\<close>

theorem record_roundtrip:
  "tab \<notin> set w \<Longrightarrow> parseLine (record_line w n) = (w, n)"
  by (rule parseLine_record_line)

theorem record_roundtrip_witness:
  "tab \<notin> set ''abc'' \<and> parseLine (record_line ''abc'' 12) = (''abc'', 12)"
proof -
  have "tab \<notin> set ''abc''" by (simp add: tab_def)
  with record_roundtrip [of "''abc''" 12] show ?thesis by simp
qed

theorem record_roundtrip_counterexample:
  "0 \<le> sint (1 :: go_int) \<and>
   parseLine (record_line [CHR ''a'', tab, CHR ''b''] 1) = (''a'', 0) \<and>
   parseLine (record_line [CHR ''a'', tab, CHR ''b''] 1) \<noteq> ([CHR ''a'', tab, CHR ''b''], 1)"
  by (simp add: parseLine_def record_line_def SplitN2_def tab_def Atoi_def is_digit_def)

subsection \<open>Claim C10: a line without a tab in an input run\<close>




end
